theory Spec2Isabelle
  imports Main "HOL-Library.Sublist"
begin

section \<open>Text and regular expressions of \<open>fix_svelte_files.py\<close>\<close>

text \<open>
  A Python \<open>str\<close> is a sequence of Unicode code points; it is modelled as a list of
  natural numbers.  \<open>str\<close> turns an Isabelle string literal into such a text.
\<close>

type_synonym pystr = "nat list"

definition str :: "string \<Rightarrow> pystr" where
  "str cs = map of_char cs"

text \<open>
  The class \<open>\s\<close> of a \<open>str\<close> pattern: the code points for which Python's
  \<open>str.isspace\<close> holds.
\<close>

definition is_space :: "nat \<Rightarrow> bool" where
  "is_space c \<longleftrightarrow>
     (9 \<le> c \<and> c \<le> 13) \<or> (28 \<le> c \<and> c \<le> 32) \<or> c = 133 \<or> c = 160 \<or> c = 5760 \<or>
     (8192 \<le> c \<and> c \<le> 8202) \<or> c = 8232 \<or> c = 8233 \<or> c = 8239 \<or> c = 8287 \<or>
     c = 12288"

text \<open>
  The two patterns of the script are sequences of three kinds of items: a literal
  character, the greedy \<open>\s*\<close>, and the dot (any character but a newline).
\<close>

datatype item = Lit nat | Ws | AnyChar

text \<open>
  \<open>match_here p s\<close> is the backtracking matcher anchored at the start of \<open>s\<close>: the
  text left after the match the engine finds first, or \<open>None\<close>.  \<open>\s*\<close> is greedy: it
  takes a whitespace character when it can and gives it back only when the rest
  of the pattern fails.
\<close>

fun match_here :: "item list \<Rightarrow> pystr \<Rightarrow> pystr option" where
  "match_here [] s = Some s"
| "match_here (Lit c # p) [] = None"
| "match_here (Lit c # p) (x # xs) = (if x = c then match_here p xs else None)"
| "match_here (AnyChar # p) [] = None"
| "match_here (AnyChar # p) (x # xs) = (if x \<noteq> 10 then match_here p xs else None)"
| "match_here (Ws # p) [] = match_here p []"
| "match_here (Ws # p) (x # xs) =
     (if is_space x
      then (case match_here (Ws # p) xs of
              Some r \<Rightarrow> Some r
            | None \<Rightarrow> match_here p (x # xs))
      else match_here p (x # xs))"

text \<open>
  \<open>re_sub p f s\<close> is \<open>re.sub\<close> without a count: it scans \<open>s\<close> from the left,
  replaces every non-overlapping match by \<open>f\<close> of the matched text (the expanded
  template) and copies every other character.  An empty match is replaced and the
  scan moves one character on, as Python does since 3.7; neither pattern of the
  script can match the empty text.
\<close>

function re_sub :: "item list \<Rightarrow> (pystr \<Rightarrow> pystr) \<Rightarrow> pystr \<Rightarrow> pystr" where
  "re_sub p f s =
     (case match_here p s of
        None \<Rightarrow> (case s of [] \<Rightarrow> [] | c # cs \<Rightarrow> c # re_sub p f cs)
      | Some r \<Rightarrow>
          (if length r < length s
           then f (take (length s - length r) s) @ re_sub p f r
           else (case s of [] \<Rightarrow> f [] | c # cs \<Rightarrow> f [] @ c # re_sub p f cs)))"
  by pat_completeness auto
termination
  by (relation "measure (\<lambda>(p, f, s). length s)") auto

declare re_sub.simps [simp del]

text \<open>Python's \<open>sub in s\<close> on texts.\<close>

fun contains :: "pystr \<Rightarrow> pystr \<Rightarrow> bool" where
  "contains sub [] = (sub = [])"
| "contains sub (c # cs) = (prefix sub (c # cs) \<or> contains sub cs)"

text \<open>\<open>occurs p s\<close>: the pattern \<open>p\<close> matches at some position of \<open>s\<close>.\<close>

fun occurs :: "item list \<Rightarrow> pystr \<Rightarrow> bool" where
  "occurs p [] = (match_here p [] \<noteq> None)"
| "occurs p (c # cs) = (match_here p (c # cs) \<noteq> None \<or> occurs p cs)"

text \<open>
  \<open>lang p\<close>: the texts that \<open>p\<close> matches as a whole (the language of the pattern),
  used to reason about \<open>match_here\<close>.
\<close>
fun lang :: "item list \<Rightarrow> pystr set" where
  "lang [] = {[]}"
| "lang (Lit c # p) = {c # m | m. m \<in> lang p}"
| "lang (AnyChar # p) = {x # m | x m. x \<noteq> 10 \<and> m \<in> lang p}"
| "lang (Ws # p) = {w @ m | w m. list_all is_space w \<and> m \<in> lang p}"

text \<open>
  Three notions used to state and prove the properties.  \<open>starts_in p a y\<close>: in the text
  \<open>a @ y\<close> the pattern matches at a position inside \<open>a\<close>.  \<open>det p\<close>: every \<open>\s*\<close> of
  \<open>p\<close> is followed by a literal that is not whitespace, so that a match of \<open>p\<close> is
  determined by where it starts.  \<open>avoids c p\<close>: no text matched by \<open>p\<close> holds the
  character \<open>c\<close>.
\<close>

fun starts_in :: "item list \<Rightarrow> pystr \<Rightarrow> pystr \<Rightarrow> bool" where
  "starts_in p [] y = False"
| "starts_in p (c # a) y = (match_here p (c # a @ y) \<noteq> None \<or> starts_in p a y)"

fun det :: "item list \<Rightarrow> bool" where
  "det [] = True"
| "det (i # p) =
     ((case i of
         Ws \<Rightarrow> (case p of Lit c # q \<Rightarrow> \<not> is_space c | _ \<Rightarrow> False)
       | _ \<Rightarrow> True) \<and> det p)"

fun avoids :: "nat \<Rightarrow> item list \<Rightarrow> bool" where
  "avoids c [] = True"
| "avoids c (Lit d # p) = (d \<noteq> c \<and> avoids c p)"
| "avoids c (Ws # p) = (\<not> is_space c \<and> avoids c p)"
| "avoids c (AnyChar # p) = False"

section \<open>The two transforms\<close>

text \<open>
  The pattern \<open>\{\s*supabase,\s*session\s*\}\s*=\s*data\<close> and its replacement
  \<open>{ session } = data\<close> (line 18).
\<close>

definition destructure_re :: "item list" where
  "destructure_re =
     [Lit 123, Ws] @ map Lit (str ''supabase,'') @ [Ws] @ map Lit (str ''session'') @
     [Ws, Lit 125, Ws, Lit 61, Ws] @ map Lit (str ''data'')"

definition session_only :: pystr where
  "session_only = str ''{ session } = data''"

definition narrow_binding :: "pystr \<Rightarrow> pystr" where
  "narrow_binding content = re_sub destructure_re (\<lambda>m. session_only) content"

text \<open>
  The two markers of line 21, the pattern
  \<open>(import type \{ PageData \} from '.\/\$types';)\<close> of line 24, whose only group is
  the whole match, and the template \<open>\1\n  import { supabase } from '$lib/supabase';\<close>
  of line 25 (39 is the single quote, 10 the newline).
\<close>

definition marker_import :: pystr where
  "marker_import = str ''import { supabase }''"

definition marker_module :: pystr where
  "marker_module = str ''$lib/supabase''"

definition anchor_re :: "item list" where
  "anchor_re =
     map Lit (str ''import type { PageData } from '') @ [Lit 39, AnyChar] @
     map Lit (str ''/$types';'')"

definition import_line :: pystr where
  "import_line = 10 # str ''  import { supabase } from '$lib/supabase';''"

definition add_import :: "pystr \<Rightarrow> pystr" where
  "add_import content =
     (if \<not> contains marker_import content \<and> \<not> contains marker_module content
      then re_sub anchor_re (\<lambda>m. m @ import_line) content
      else content)"

text \<open>Lines 18 to 27: what is written back for a file whose text is \<open>content\<close>.\<close>

definition fix_content :: "pystr \<Rightarrow> pystr" where
  "fix_content content = add_import (narrow_binding content)"

text \<open>
  The texts the two patterns match: \<open>two_name w1 w2 w3 w4 w5\<close> is the two-name
  destructure with the whitespace \<open>w1\<close>, ..., \<open>w5\<close> at the five places where the pattern
  of line 18 has \<open>\s*\<close>; \<open>anchor_text d\<close> is the anchor line with the character \<open>d\<close>
  where the pattern of line 24 has its dot.
\<close>

definition two_name :: "pystr \<Rightarrow> pystr \<Rightarrow> pystr \<Rightarrow> pystr \<Rightarrow> pystr \<Rightarrow> pystr" where
  "two_name w1 w2 w3 w4 w5 =
     123 # w1 @ str ''supabase,'' @ w2 @ str ''session'' @ w3 @ 125 # w4 @ 61 # w5 @ str ''data''"

definition anchor_text :: "nat \<Rightarrow> pystr" where
  "anchor_text d = str ''import type { PageData } from '' @ [39, d] @ str ''/$types';''"

text \<open>
  \<open>anchor_line\<close> is the anchor line as SvelteKit writes it, with the specifier
  \<open>./$types\<close>.  \<open>count_of sub s\<close> counts the positions of \<open>s\<close> at which \<open>sub\<close> starts.
\<close>

definition anchor_line :: pystr where
  "anchor_line = anchor_text 46"

fun count_of :: "pystr \<Rightarrow> pystr \<Rightarrow> nat" where
  "count_of sub [] = 0"
| "count_of sub (c # cs) = (if prefix sub (c # cs) then 1 else 0) + count_of sub cs"

text \<open>
  The two-name destructure in the words of the specification, "tolerant of
  arbitrary whitespace between tokens": \<open>\s*\<close> between every two tokens, also between
  \<open>supabase\<close> and the comma.  It is compared with \<open>destructure_re\<close>, the pattern of
  the script.
\<close>

definition destructure_spec_re :: "item list" where
  "destructure_spec_re =
     [Lit 123, Ws] @ map Lit (str ''supabase'') @ [Ws, Lit 44, Ws] @ map Lit (str ''session'') @
     [Ws, Lit 125, Ws, Lit 61, Ws] @ map Lit (str ''data'')"

section \<open>The batch over the files\<close>

text \<open>
  The file system and the console are outside the script; they are parameters.
  The file system is a state of type \<open>'w\<close>, with \<open>load\<close> for \<open>open(filepath, 'r')\<close> and
  \<open>f.read()\<close>, which gives the text or raises, and \<open>save\<close> for \<open>open(filepath, 'w')\<close>
  and \<open>f.write(content)\<close>, which gives the new state and may raise (a failed write may
  still have truncated the file).  The console: \<open>console out line\<close> tells whether
  \<open>print(line)\<close> raises when the lines \<open>out\<close> have been printed so far (\<open>None\<close>: the
  line is printed), and \<open>flush_ok out\<close> whether the interpreter can flush standard
  output when it exits.  An exception is represented by its message \<open>str(e)\<close>; only
  exceptions of the class \<open>Exception\<close>, the ones line 33 catches, are modelled.
\<close>

datatype error = Exception pystr

type_synonym 'w loader = "pystr \<Rightarrow> 'w \<Rightarrow> error + pystr"
type_synonym 'w saver = "pystr \<Rightarrow> pystr \<Rightarrow> 'w \<Rightarrow> 'w \<times> error option"
type_synonym console = "pystr list \<Rightarrow> pystr \<Rightarrow> error option"

definition files_to_fix :: "pystr list" where
  "files_to_fix =
     [str ''/Users/sheldonzhao/programs/FlowReader/apps/web/src/routes/notes/search/+page.svelte'',
      str ''/Users/sheldonzhao/programs/FlowReader/apps/web/src/routes/library/+page.svelte'',
      str ''/Users/sheldonzhao/programs/FlowReader/apps/web/src/routes/read/[bookId]/+page.svelte'',
      str ''/Users/sheldonzhao/programs/FlowReader/apps/web/src/routes/read/[bookId]/notes/+page.svelte'']"

definition fixed_msg :: "pystr \<Rightarrow> pystr" where
  "fixed_msg filepath = str ''Fixed: '' @ filepath"

definition error_msg :: "pystr \<Rightarrow> error \<Rightarrow> pystr" where
  "error_msg filepath e =
     (case e of Exception m \<Rightarrow> str ''Error fixing '' @ filepath @ str '': '' @ m)"

text \<open>\<open>print(line)\<close>: the lines printed so far with \<open>line\<close> added, or the exception raised.\<close>

definition py_print :: "console \<Rightarrow> pystr \<Rightarrow> pystr list \<Rightarrow> error + pystr list" where
  "py_print console line out =
     (case console out line of None \<Rightarrow> Inr (out @ [line]) | Some e \<Rightarrow> Inl e)"

text \<open>
  The body of the \<open>try\<close> (lines 14 to 32) on the file system \<open>w\<close> and the printed lines
  \<open>out\<close>: the state it leaves and the exception it raised, if any.
\<close>

definition try_body ::
  "'w loader \<Rightarrow> 'w saver \<Rightarrow> console \<Rightarrow> pystr \<Rightarrow> 'w \<times> pystr list \<Rightarrow>
   ('w \<times> pystr list) \<times> error option" where
  "try_body load save console filepath st =
     (case st of
        (w, out) \<Rightarrow>
          (case load filepath w of
             Inl e \<Rightarrow> ((w, out), Some e)
           | Inr content \<Rightarrow>
               (case save filepath (fix_content content) w of
                  (w1, Some e) \<Rightarrow> ((w1, out), Some e)
                | (w1, None) \<Rightarrow>
                    (case py_print console (fixed_msg filepath) out of
                       Inl e \<Rightarrow> ((w1, out), Some e)
                     | Inr out1 \<Rightarrow> ((w1, out1), None)))))"

text \<open>
  One iteration of the loop (lines 13 to 34).  The handler prints the error line;
  an exception raised by that \<open>print\<close> is caught by nothing and leaves the loop.
\<close>

definition fix_file ::
  "'w loader \<Rightarrow> 'w saver \<Rightarrow> console \<Rightarrow> pystr \<Rightarrow> 'w \<times> pystr list \<Rightarrow>
   ('w \<times> pystr list) \<times> error option" where
  "fix_file load save console filepath st =
     (case try_body load save console filepath st of
        (st1, None) \<Rightarrow> (st1, None)
      | ((w1, out1), Some e) \<Rightarrow>
          (case py_print console (error_msg filepath e) out1 of
             Inl e' \<Rightarrow> ((w1, out1), Some e')
           | Inr out2 \<Rightarrow> ((w1, out2), None)))"








text \<open>
  A disk and three consoles for the examples.  The disk is a map from paths to
  texts; reading a missing file raises with the message Python gives for a path
  without quotes or escapes in it, writing always succeeds.  \<open>terminal\<close> prints
  every line, \<open>full_device\<close> raises on every line, \<open>rejecting bad\<close> raises on the line
  \<open>bad\<close> only.
\<close>

definition read_file :: "(pystr \<rightharpoonup> pystr) loader" where
  "read_file filepath disk =
     (case disk filepath of
        None \<Rightarrow>
          Inl (Exception (str ''[Errno 2] No such file or directory: '' @ [39] @ filepath @ [39]))
      | Some content \<Rightarrow> Inr content)"

definition write_file :: "(pystr \<rightharpoonup> pystr) saver" where
  "write_file filepath content disk = (disk(filepath \<mapsto> content), None)"

definition terminal :: console where
  "terminal out line = None"



section \<open>The matcher and the language of a pattern\<close>

lemma lang_WsI: "list_all is_space w \<Longrightarrow> m \<in> lang p \<Longrightarrow> w @ m \<in> lang (Ws # p)"
  by auto

lemma match_here_sound:
  "match_here p s = Some r \<Longrightarrow> \<exists>m. m \<in> lang p \<and> s = m @ r"
proof (induction p s arbitrary: r rule: match_here.induct)
  case (7 p x xs)
  show ?case
  proof (cases "is_space x \<and> match_here (Ws # p) xs \<noteq> None")
    case True
    then obtain r' where r': "match_here (Ws # p) xs = Some r'" by auto
    with True "7.prems" have "r' = r" by simp
    with "7.IH"(1) True r' obtain m where "m \<in> lang (Ws # p)" "xs = m @ r" by blast
    then obtain w m' where "m = w @ m'" "list_all is_space w" "m' \<in> lang p" by auto
    with True have "list_all is_space (x # w)" by simp
    then have "(x # w) @ m' \<in> lang (Ws # p)" using \<open>m' \<in> lang p\<close> by (rule lang_WsI)
    moreover from \<open>xs = m @ r\<close> \<open>m = w @ m'\<close> have "x # xs = ((x # w) @ m') @ r" by simp
    ultimately have "(x # w) @ m' \<in> lang (Ws # p)" "x # xs = ((x # w) @ m') @ r" by blast+
    then show ?thesis by blast
  next
    case False
    with "7.prems" have "match_here p (x # xs) = Some r" by (auto split: if_splits option.splits)
    with "7.IH"(2,3) False obtain m where "m \<in> lang p" "x # xs = m @ r"
      by (cases "is_space x") auto
    then have "[] @ m \<in> lang (Ws # p)" by (intro lang_WsI) simp_all
    with \<open>x # xs = m @ r\<close> show ?thesis by auto
  qed
next
  case (6 p)
  then obtain m where "m \<in> lang p" "[] = m @ r" by auto
  then have "[] @ m \<in> lang (Ws # p)" by (intro lang_WsI) simp_all
  with \<open>[] = m @ r\<close> show ?case by auto
qed (auto split: if_splits)

lemma match_here_complete:
  "m \<in> lang p \<Longrightarrow> match_here p (m @ r) \<noteq> None"
proof (induction p arbitrary: m)
  case Nil then show ?case by simp
next
  case (Cons i p)
  show ?case
  proof (cases i)
    case (Lit c) with Cons show ?thesis by auto
  next
    case AnyChar with Cons show ?thesis by auto
  next
    case Ws
    with Cons.prems obtain w m' where m: "m = w @ m'" "list_all is_space w" "m' \<in> lang p" by auto
    have base: "match_here p (m' @ r) \<noteq> None" using Cons.IH m(3) by blast
    have skip: "match_here (Ws # p) (m' @ r) \<noteq> None"
      using base by (cases "m' @ r") (auto split: option.splits)
    from m(2) have "match_here (Ws # p) (w @ m' @ r) \<noteq> None"
      using skip by (induction w) (auto split: option.splits)
    with Ws m show ?thesis by simp
  qed
qed

lemma match_here_shorter: "match_here p s = Some r \<Longrightarrow> length r \<le> length s"
  by (drule match_here_sound) auto

lemma occurs_iff: "occurs p s \<longleftrightarrow> (\<exists>a b. s = a @ b \<and> match_here p b \<noteq> None)"
proof (induction s)
  case Nil then show ?case by simp
next
  case (Cons c cs)
  show ?case
  proof
    assume "occurs p (c # cs)"
    then consider "match_here p (c # cs) \<noteq> None" | "occurs p cs" by auto
    then show "\<exists>a b. c # cs = a @ b \<and> match_here p b \<noteq> None"
    proof cases
      case 1 then have "c # cs = [] @ (c # cs) \<and> match_here p (c # cs) \<noteq> None" by simp
      then show ?thesis by blast
    next
      case 2 with Cons obtain a b where "cs = a @ b" "match_here p b \<noteq> None" by blast
      then have "c # cs = (c # a) @ b \<and> match_here p b \<noteq> None" by simp
      then show ?thesis by blast
    qed
  next
    assume "\<exists>a b. c # cs = a @ b \<and> match_here p b \<noteq> None"
    then obtain a b where ab: "c # cs = a @ b" "match_here p b \<noteq> None" by blast
    show "occurs p (c # cs)"
    proof (cases a)
      case Nil with ab have "match_here p (c # cs) \<noteq> None" by simp
      then show ?thesis by simp
    next
      case (Cons x a') with ab have "cs = a' @ b" by simp
      with ab Cons.IH show ?thesis by auto
    qed
  qed
qed

lemma contains_iff: "contains sub s \<longleftrightarrow> (\<exists>a b. s = a @ sub @ b)"
proof (induction s)
  case Nil then show ?case by auto
next
  case (Cons c cs)
  show ?case
  proof
    assume "contains sub (c # cs)"
    then consider "prefix sub (c # cs)" | "contains sub cs" by auto
    then show "\<exists>a b. c # cs = a @ sub @ b"
    proof cases
      case 1 then obtain b where "c # cs = [] @ sub @ b" by (auto simp: prefix_def)
      then show ?thesis by blast
    next
      case 2 with Cons obtain a b where "cs = a @ sub @ b" by blast
      then have "c # cs = (c # a) @ sub @ b" by simp
      then show ?thesis by blast
    qed
  next
    assume "\<exists>a b. c # cs = a @ sub @ b"
    then obtain a b where ab: "c # cs = a @ sub @ b" by blast
    show "contains sub (c # cs)"
    proof (cases a)
      case Nil with ab have "prefix sub (c # cs)" by (simp add: prefix_def)
      then show ?thesis by simp
    next
      case (Cons x a') with ab have "cs = a' @ sub @ b" by simp
      with Cons.IH show ?thesis by auto
    qed
  qed
qed

lemma re_sub_no_match: "\<not> occurs p s \<Longrightarrow> re_sub p f s = s"
  by (induction s) (simp_all add: re_sub.simps)

lemma starts_in_iff:
  "starts_in p a y \<longleftrightarrow> (\<exists>a1 a2. a = a1 @ a2 \<and> a2 \<noteq> [] \<and> match_here p (a2 @ y) \<noteq> None)"
proof (induction a)
  case Nil then show ?case by simp
next
  case (Cons c a)
  show ?case
  proof
    assume "starts_in p (c # a) y"
    then consider "match_here p ((c # a) @ y) \<noteq> None" | "starts_in p a y" by auto
    then show "\<exists>a1 a2. c # a = a1 @ a2 \<and> a2 \<noteq> [] \<and> match_here p (a2 @ y) \<noteq> None"
    proof cases
      case 1
      then have "c # a = [] @ (c # a) \<and> c # a \<noteq> [] \<and> match_here p ((c # a) @ y) \<noteq> None"
        by simp
      then show ?thesis by blast
    next
      case 2
      with Cons obtain a1 a2 where "a = a1 @ a2" "a2 \<noteq> []" "match_here p (a2 @ y) \<noteq> None"
        by blast
      then have "c # a = (c # a1) @ a2 \<and> a2 \<noteq> [] \<and> match_here p (a2 @ y) \<noteq> None" by simp
      then show ?thesis by blast
    qed
  next
    assume "\<exists>a1 a2. c # a = a1 @ a2 \<and> a2 \<noteq> [] \<and> match_here p (a2 @ y) \<noteq> None"
    then obtain a1 a2 where s: "c # a = a1 @ a2" "a2 \<noteq> []" "match_here p (a2 @ y) \<noteq> None"
      by blast
    show "starts_in p (c # a) y"
    proof (cases a1)
      case Nil
      with s have "match_here p (c # a @ y) \<noteq> None" by (metis append_Cons append_Nil)
      then show ?thesis by simp
    next
      case (Cons x a1')
      with s have "a = a1' @ a2" by simp
      with s Cons.IH have "starts_in p a y" by blast
      then show ?thesis by simp
    qed
  qed
qed

lemma avoids_lang: "avoids c p \<Longrightarrow> m \<in> lang p \<Longrightarrow> c \<notin> set m"
proof (induction p arbitrary: m)
  case Nil then show ?case by simp
next
  case (Cons i p)
  then show ?case by (cases i) (auto simp: list_all_iff)
qed

lemma spaces_split:
  "list_all P w \<Longrightarrow> list_all P w' \<Longrightarrow> \<not> P c \<Longrightarrow> w @ c # x = w' @ c # y \<Longrightarrow> w = w' \<and> x = y"
proof (induction w arbitrary: w')
  case Nil then show ?case by (cases w') auto
next
  case (Cons a w) then show ?case by (cases w') auto
qed

lemma det_WsD: "det (Ws # p) \<Longrightarrow> \<exists>c q. p = Lit c # q \<and> \<not> is_space c \<and> det p"
  by (cases p) (simp_all split: item.splits)

lemma lang_WsD: "m \<in> lang (Ws # p) \<Longrightarrow> \<exists>w n. m = w @ n \<and> list_all is_space w \<and> n \<in> lang p"
  by simp

lemma lang_LitD: "m \<in> lang (Lit c # p) \<Longrightarrow> \<exists>n. m = c # n \<and> n \<in> lang p"
  by simp

lemma lang_AnyCharD: "m \<in> lang (AnyChar # p) \<Longrightarrow> \<exists>x n. m = x # n \<and> x \<noteq> 10 \<and> n \<in> lang p"
  by simp

lemma det_unique:
  "det p \<Longrightarrow> m \<in> lang p \<Longrightarrow> m' \<in> lang p \<Longrightarrow> m @ r = m' @ r' \<Longrightarrow> m = m'"
proof (induction p arbitrary: m m' r r')
  case Nil then show ?case by simp
next
  case (Cons i p)
  show ?case
  proof (cases i)
    case (Lit c)
    from Cons.prems(2) Lit obtain n where n: "m = c # n" "n \<in> lang p"
      using lang_LitD by blast
    from Cons.prems(3) Lit obtain n' where n': "m' = c # n'" "n' \<in> lang p"
      using lang_LitD by blast
    from Lit Cons.prems(1) have d: "det p" by simp
    from n(1) n'(1) Cons.prems(4) have "n @ r = n' @ r'" by simp
    from Cons.IH [OF d n(2) n'(2) this] n(1) n'(1) show ?thesis by simp
  next
    case AnyChar
    from Cons.prems(2) AnyChar obtain x n where n: "m = x # n" "n \<in> lang p"
      using lang_AnyCharD by blast
    from Cons.prems(3) AnyChar obtain x' n' where n': "m' = x' # n'" "n' \<in> lang p"
      using lang_AnyCharD by blast
    from AnyChar Cons.prems(1) have d: "det p" by simp
    from n(1) n'(1) Cons.prems(4) have e: "x = x'" "n @ r = n' @ r'" by simp_all
    from Cons.IH [OF d n(2) n'(2) e(2)] n(1) n'(1) e(1) show ?thesis by simp
  next
    case Ws
    from Cons.prems(1) Ws obtain c q where p: "p = Lit c # q" "\<not> is_space c" "det p"
      using det_WsD by blast
    from Cons.prems(2) Ws obtain w n where m: "m = w @ n" "list_all is_space w" "n \<in> lang p"
      using lang_WsD by blast
    from Cons.prems(3) Ws obtain w' n' where
      m': "m' = w' @ n'" "list_all is_space w'" "n' \<in> lang p"
      using lang_WsD by blast
    from p(1) m(3) obtain k where k: "n = c # k" using lang_LitD by blast
    from p(1) m'(3) obtain k' where k': "n' = c # k'" using lang_LitD by blast
    from Cons.prems(4) m(1) m'(1) k k' have "w @ c # (k @ r) = w' @ c # (k' @ r')" by simp
    from spaces_split [OF m(2) m'(2) p(2) this] have e: "w = w'" "k @ r = k' @ r'" by simp_all
    with k k' have "n @ r = n' @ r'" by simp
    from Cons.IH [OF p(3) m(3) m'(3) this] e(1) m(1) m'(1) show ?thesis by simp
  qed
qed

lemma det_match:
  assumes "det p" "m \<in> lang p"
  shows "match_here p (m @ r) = Some r"
proof -
  from match_here_complete [OF assms(2)] obtain r' where r': "match_here p (m @ r) = Some r'"
    by blast
  from match_here_sound [OF r'] obtain m' where m': "m' \<in> lang p" "m @ r = m' @ r'" by blast
  from det_unique [OF assms m'] have "m = m'" .
  with m'(2) have "r = r'" by simp
  with r' show ?thesis by simp
qed

lemma re_sub_Nil: "[] \<notin> lang p \<Longrightarrow> re_sub p f [] = []"
proof -
  assume e: "[] \<notin> lang p"
  have "match_here p [] = None"
  proof (cases "match_here p []")
    case (Some r)
    from match_here_sound [OF Some] e show ?thesis by auto
  qed simp
  then show ?thesis by (simp add: re_sub.simps)
qed

lemma re_sub_None: "match_here p (c # cs) = None \<Longrightarrow> re_sub p f (c # cs) = c # re_sub p f cs"
  by (simp add: re_sub.simps)

lemma re_sub_Some:
  assumes "[] \<notin> lang p" "match_here p s = Some r"
  shows "\<exists>m. m \<in> lang p \<and> m \<noteq> [] \<and> s = m @ r \<and> re_sub p f s = f m @ re_sub p f r"
proof -
  from match_here_sound [OF assms(2)] obtain m where m: "m \<in> lang p" "s = m @ r" by blast
  with assms(1) have ne: "m \<noteq> []" by auto
  with m have "length r < length s" "take (length s - length r) s = m" by simp_all
  with assms(2) have "re_sub p f s = f m @ re_sub p f r" by (subst re_sub.simps) simp
  with m ne show ?thesis by blast
qed

lemma re_sub_first:
  assumes "[] \<notin> lang p" "det p" "m \<in> lang p"
  shows "\<not> starts_in p a (m @ r) \<Longrightarrow> re_sub p f (a @ m @ r) = a @ f m @ re_sub p f r"
proof (induction a)
  case Nil
  from det_match [OF assms(2,3)] have h: "match_here p (m @ r) = Some r" .
  from re_sub_Some [OF assms(1) h] obtain m' where
    "m @ r = m' @ r" "re_sub p f (m @ r) = f m' @ re_sub p f r" by blast
  then show ?case by simp
next
  case (Cons c a)
  then have "match_here p (c # a @ m @ r) = None" "\<not> starts_in p a (m @ r)" by auto
  with Cons.IH show ?case by (simp add: re_sub_None)
qed

lemma re_sub_occurs:
  assumes "[] \<notin> lang p"
  shows "occurs p s \<Longrightarrow> \<exists>a m b. m \<in> lang p \<and> re_sub p f s = a @ f m @ b"
proof (induction s)
  case Nil
  then have "match_here p [] \<noteq> None" by simp
  then obtain r where "match_here p [] = Some r" by blast
  from match_here_sound [OF this] assms show ?case by auto
next
  case (Cons c cs)
  show ?case
  proof (cases "match_here p (c # cs)")
    case None
    with Cons obtain a m b where "m \<in> lang p" "re_sub p f cs = a @ f m @ b" by auto
    with None have "m \<in> lang p \<and> re_sub p f (c # cs) = (c # a) @ f m @ b"
      by (simp add: re_sub_None)
    then show ?thesis by blast
  next
    case (Some r)
    from re_sub_Some [OF assms Some] obtain m where
      "m \<in> lang p" "re_sub p f (c # cs) = f m @ re_sub p f r" by blast
    then have "m \<in> lang p \<and> re_sub p f (c # cs) = [] @ f m @ re_sub p f r" by simp
    then show ?thesis by blast
  qed
qed

lemma append_Cons_prefix: "k @ c # z = u @ v \<Longrightarrow> c \<notin> set u \<Longrightarrow> prefix u k"
proof -
  assume e: "k @ c # z = u @ v" and c: "c \<notin> set u"
  from e obtain t where "k = u @ t \<and> t @ c # z = v \<or> k @ t = u \<and> c # z = t @ v"
    unfolding append_eq_append_conv2 by blast
  then show ?thesis
  proof
    assume "k = u @ t \<and> t @ c # z = v"
    then show ?thesis by simp
  next
    assume h: "k @ t = u \<and> c # z = t @ v"
    show ?thesis
    proof (cases t)
      case Nil with h show ?thesis by simp
    next
      case (Cons x t')
      with h have "x = c" by simp
      with Cons h c show ?thesis by auto
    qed
  qed
qed

lemma re_sub_prefix:
  assumes ne: "[] \<notin> lang p"
    and G: "\<And>m x u v. m \<in> lang p \<Longrightarrow> f m @ x = u @ v \<Longrightarrow> c \<notin> set u \<Longrightarrow> prefix u m"
  shows "re_sub p f s = u @ v \<Longrightarrow> c \<notin> set u \<Longrightarrow> prefix u s"
proof (induction s arbitrary: u v rule: length_induct)
  case (1 s)
  show ?case
  proof (cases "match_here p s")
    case None
    show ?thesis
    proof (cases s)
      case Nil
      with "1.prems" ne show ?thesis by (simp add: re_sub_Nil)
    next
      case (Cons x xs)
      with None "1.prems"(1) have e: "x # re_sub p f xs = u @ v" by (simp add: re_sub_None)
      show ?thesis
      proof (cases u)
        case Nil then show ?thesis by simp
      next
        case (Cons y u')
        with e have "y = x" "re_sub p f xs = u' @ v" by simp_all
        moreover from Cons "1.prems"(2) have "c \<notin> set u'" by simp
        moreover from \<open>s = x # xs\<close> have "length xs < length s" by simp
        ultimately have "prefix u' xs" using "1.IH" by blast
        with Cons \<open>y = x\<close> \<open>s = x # xs\<close> show ?thesis by simp
      qed
    qed
  next
    case (Some r)
    from re_sub_Some [OF ne Some] obtain m where
      m: "m \<in> lang p" "s = m @ r" "re_sub p f s = f m @ re_sub p f r" by blast
    with "1.prems"(1) have "f m @ re_sub p f r = u @ v" by simp
    from G [OF m(1) this "1.prems"(2)] m(2) show ?thesis by (simp add: prefix_def) auto
  qed
qed

lemma starts_inD:
  "\<not> starts_in q x y \<Longrightarrow> x = a @ b \<Longrightarrow> b \<noteq> [] \<Longrightarrow> match_here q (b @ y) = None"
  using starts_in_iff by blast

lemma re_sub_no_new_match:
  assumes ne: "[] \<notin> lang p"
    and G: "\<And>m x u v. m \<in> lang p \<Longrightarrow> f m @ x = u @ v \<Longrightarrow> c \<notin> set u \<Longrightarrow> prefix u m"
    and Q1: "\<And>m. m \<in> lang q \<Longrightarrow> \<exists>m2. m = c # m2 \<and> c \<notin> set m2"
    and Q2: "\<And>m y. m \<in> lang p \<Longrightarrow> \<not> starts_in q (f m) y"
  shows "(\<And>a b. s = a @ b \<Longrightarrow> match_here q b \<noteq> None \<Longrightarrow> match_here p b \<noteq> None) \<Longrightarrow>
         \<not> occurs q (re_sub p f s)"
proof (induction s rule: length_induct)
  case (1 s)
  have H: "match_here q b \<noteq> None \<Longrightarrow> match_here p b \<noteq> None" if "s = a @ b" for a b
    using "1.prems" that by blast
  show ?case
  proof
    assume "occurs q (re_sub p f s)"
    then obtain a b where ab: "re_sub p f s = a @ b" "match_here q b \<noteq> None"
      using occurs_iff by blast
    show False
    proof (cases "match_here p s")
      case None
      with H [of "[]" s] have qs: "match_here q s = None" by (cases "match_here q s") auto
      show False
      proof (cases s)
        case Nil
        with ne ab qs show False by (simp add: re_sub_Nil)
      next
        case (Cons x xs)
        with None ab(1) have e: "x # re_sub p f xs = a @ b" by (simp add: re_sub_None)
        have Hxs: "match_here q b' \<noteq> None \<Longrightarrow> match_here p b' \<noteq> None" if "xs = a' @ b'" for a' b'
          using H [of "x # a'" b'] that Cons by simp
        from Cons have len: "length xs < length s" by simp
        have IH: "\<not> occurs q (re_sub p f xs)" using "1.IH" len Hxs by blast
        show False
        proof (cases a)
          case Nil
          with e have b: "b = x # re_sub p f xs" by simp
          from ab(2) obtain r' where "match_here q b = Some r'" by blast
          from match_here_sound [OF this] obtain m where m: "m \<in> lang q" "b = m @ r'" by blast
          from Q1 [OF m(1)] obtain m2 where m2: "m = c # m2" "c \<notin> set m2" by blast
          with m(2) b have out: "re_sub p f xs = m2 @ r'" by simp
          have "prefix m2 xs"
          proof (rule re_sub_prefix [OF ne _ out m2(2)])
            fix m x u v
            assume "m \<in> lang p" "f m @ x = u @ v" "c \<notin> set u"
            then show "prefix u m" by (rule G)
          qed
          then obtain z where "xs = m2 @ z" by (auto simp: prefix_def)
          with m m2 b Cons have "s = m @ z" by simp
          with match_here_complete [OF m(1), of z] qs show False by simp
        next
          case (Cons y a')
          with e have "re_sub p f xs = a' @ b" by simp
          with ab(2) IH occurs_iff show False by blast
        qed
      qed
    next
      case (Some r)
      from re_sub_Some [OF ne Some] obtain m where
        m: "m \<in> lang p" "m \<noteq> []" "s = m @ r" "re_sub p f s = f m @ re_sub p f r" by blast
      with ab(1) have e: "f m @ re_sub p f r = a @ b" by simp
      then consider t where "a = f m @ t" "re_sub p f r = t @ b"
        | t where "f m = a @ t" "b = t @ re_sub p f r" "t \<noteq> []"
        by (auto simp: append_eq_append_conv2) (metis append_Nil2)
      then show False
      proof cases
        case 1
        have Hr: "match_here q b' \<noteq> None \<Longrightarrow> match_here p b' \<noteq> None" if "r = a' @ b'" for a' b'
          using H [of "m @ a'" b'] that m(3) by simp
        from m(2,3) have "length r < length s" by simp
        then have "\<not> occurs q (re_sub p f r)" using "1.IH" Hr by blast
        with 1(2) ab(2) occurs_iff show False by blast
      next
        case 2
        from starts_inD [OF Q2 [OF m(1)] 2(1) 2(3)] 2(2) ab(2) show False by simp
      qed
    qed
  qed
qed

section \<open>The two patterns\<close>

lemma destructure_ne: "[] \<notin> lang destructure_re"
  by (simp add: destructure_re_def)


lemma destructure_brace: "m \<in> lang destructure_re \<Longrightarrow> \<exists>m2. m = 123 # m2 \<and> 123 \<notin> set m2"
proof -
  assume m: "m \<in> lang destructure_re"
  have d: "destructure_re = Lit 123 # tl destructure_re" by (simp add: destructure_re_def)
  have a: "avoids 123 (tl destructure_re)"
    by (simp add: destructure_re_def str_def is_space_def)
  from m d obtain m2 where "m = 123 # m2" "m2 \<in> lang (tl destructure_re)"
    using lang_LitD by metis
  with avoids_lang [OF a] show ?thesis by blast
qed


lemma lang_two_name:
  "m \<in> lang destructure_re \<Longrightarrow>
   \<exists>w1 w2 w3 w4 w5. list_all is_space w1 \<and> list_all is_space w2 \<and> list_all is_space w3 \<and>
     list_all is_space w4 \<and> list_all is_space w5 \<and> m = two_name w1 w2 w3 w4 w5"
  by (simp add: destructure_re_def str_def two_name_def) blast

lemma session_only_prefix:
  "session_only @ x = u @ v \<Longrightarrow> 123 \<notin> set u \<Longrightarrow> prefix u m"
  by (cases u) (auto simp: session_only_def str_def)

lemma session_only_no_start: "\<not> starts_in destructure_re session_only y"
  by (simp add: session_only_def destructure_re_def str_def is_space_def)

lemma anchor_ne: "[] \<notin> lang anchor_re"
  by (simp add: anchor_re_def str_def)

lemma anchor_det: "det anchor_re"
  by (simp add: anchor_re_def str_def)

lemma lang_lits: "m \<in> lang (map Lit k @ p) \<longleftrightarrow> (\<exists>n. m = k @ n \<and> n \<in> lang p)"
  by (induction k arbitrary: m) auto

lemma lang_lits_only: "m \<in> lang (map Lit k) \<longleftrightarrow> m = k"
  using lang_lits [of m k "[]"] by simp

lemma anchor_lang: "m \<in> lang anchor_re \<longleftrightarrow> (\<exists>d. d \<noteq> 10 \<and> m = anchor_text d)"
  unfolding anchor_re_def anchor_text_def
  by (simp add: lang_lits lang_lits_only) blast

lemma anchor_prefix:
  assumes "m \<in> lang anchor_re" "(m @ import_line) @ x = u @ v" "123 \<notin> set u"
  shows "prefix u m"
proof -
  from assms(1) obtain d where "m = anchor_text d" using anchor_lang by blast
  then have m: "m = str ''import type '' @ 123 # str '' PageData } from '' @ [39, d] @ str ''/$types';''"
    by (simp add: anchor_text_def str_def)
  with assms(2) have
    "str ''import type '' @ 123 # (str '' PageData } from '' @ [39, d] @ str ''/$types';'' @ import_line @ x) = u @ v"
    by simp
  from append_Cons_prefix [OF this assms(3)] m show ?thesis by (auto simp: prefix_def)
qed

lemma anchor_no_start:
  "m \<in> lang anchor_re \<Longrightarrow> \<not> starts_in destructure_re (m @ import_line) y"
proof -
  assume "m \<in> lang anchor_re"
  then obtain d where "m = anchor_text d" using anchor_lang by blast
  then show ?thesis
    by (simp add: anchor_text_def import_line_def destructure_re_def str_def is_space_def)
qed

section \<open>What the two substitutions leave behind\<close>

lemmas texts = str_def is_space_def destructure_re_def session_only_def anchor_re_def
  anchor_text_def anchor_line_def import_line_def marker_import_def marker_module_def

lemma narrow_binding_clean: "\<not> occurs destructure_re (narrow_binding s)"
  unfolding narrow_binding_def
proof (rule re_sub_no_new_match [where c = 123 and q = destructure_re])
  show "[] \<notin> lang destructure_re" by (rule destructure_ne)
next
  fix m x u v
  assume "session_only @ x = u @ v" "123 \<notin> set u"
  then show "prefix u m" by (rule session_only_prefix)
next
  fix m assume "m \<in> lang destructure_re"
  then show "\<exists>m2. m = 123 # m2 \<and> 123 \<notin> set m2" by (rule destructure_brace)
next
  fix m y show "\<not> starts_in destructure_re session_only y" by (rule session_only_no_start)
qed

lemma import_keeps_clean:
  assumes "\<not> occurs destructure_re t"
  shows "\<not> occurs destructure_re (re_sub anchor_re (\<lambda>m. m @ import_line) t)"
proof (rule re_sub_no_new_match [where c = 123 and q = destructure_re])
  show "[] \<notin> lang anchor_re" by (rule anchor_ne)
next
  fix m x u v
  assume "m \<in> lang anchor_re" "(m @ import_line) @ x = u @ v" "123 \<notin> set u"
  then show "prefix u m" by (rule anchor_prefix)
next
  fix m assume "m \<in> lang destructure_re"
  then show "\<exists>m2. m = 123 # m2 \<and> 123 \<notin> set m2" by (rule destructure_brace)
next
  fix m y assume "m \<in> lang anchor_re"
  then show "\<not> starts_in destructure_re (m @ import_line) y" by (rule anchor_no_start)
next
  fix a b assume "t = a @ b" "match_here destructure_re b \<noteq> None"
  with assms occurs_iff show "match_here anchor_re b \<noteq> None" by blast
qed

lemma import_line_marker: "import_line = [10, 32, 32] @ marker_import @ str '' from '$lib/supabase';''"
  by (simp add: import_line_def marker_import_def str_def)

lemma import_adds_marker:
  assumes "occurs anchor_re t"
  shows "contains marker_import (re_sub anchor_re (\<lambda>m. m @ import_line) t)"
proof -
  from re_sub_occurs [OF anchor_ne assms] obtain a m b where
    "re_sub anchor_re (\<lambda>m. m @ import_line) t = a @ (m @ import_line) @ b" by blast
  then have "re_sub anchor_re (\<lambda>m. m @ import_line) t =
      (a @ m @ [10, 32, 32]) @ marker_import @ (str '' from '$lib/supabase';'' @ b)"
    by (simp add: import_line_marker)
  then show ?thesis unfolding contains_iff by blast
qed

lemma add_import_no_anchor: "\<not> occurs anchor_re content \<Longrightarrow> add_import content = content"
  by (simp add: add_import_def re_sub_no_match)


text \<open>Every match of the pattern of the script is a two-name destructure in the words of the
  specification.\<close>

lemma two_name_spec_lang:
  assumes "list_all is_space w1" "list_all is_space w2" "list_all is_space w3"
    "list_all is_space w4" "list_all is_space w5"
  shows "two_name w1 w2 w3 w4 w5 \<in> lang destructure_spec_re"
proof -
  have 5: "w5 @ str ''data'' \<in> lang (Ws # map Lit (str ''data''))"
    by (rule lang_WsI [OF assms(5)]) (simp add: lang_lits_only)
  have 4: "w4 @ 61 # w5 @ str ''data'' \<in> lang (Ws # Lit 61 # Ws # map Lit (str ''data''))"
    by (rule lang_WsI [OF assms(4)]) (use 5 in simp)
  have 3: "w3 @ 125 # w4 @ 61 # w5 @ str ''data''
      \<in> lang (Ws # Lit 125 # Ws # Lit 61 # Ws # map Lit (str ''data''))"
    by (rule lang_WsI [OF assms(3)]) (use 4 in simp)
  have 2: "w2 @ str ''session'' @ w3 @ 125 # w4 @ 61 # w5 @ str ''data''
      \<in> lang (Ws # map Lit (str ''session'') @ Ws # Lit 125 # Ws # Lit 61 # Ws # map Lit (str ''data''))"
    by (rule lang_WsI [OF assms(2)]) (use 3 in \<open>simp add: lang_lits\<close>)
  have c: "[] @ 44 # w2 @ str ''session'' @ w3 @ 125 # w4 @ 61 # w5 @ str ''data''
      \<in> lang (Ws # Lit 44 # Ws # map Lit (str ''session'') @
           Ws # Lit 125 # Ws # Lit 61 # Ws # map Lit (str ''data''))"
    by (rule lang_WsI) (use 2 in simp_all)
  have 1: "w1 @ str ''supabase'' @ 44 # w2 @ str ''session'' @ w3 @ 125 # w4 @ 61 # w5 @ str ''data''
      \<in> lang (Ws # map Lit (str ''supabase'') @ Ws # Lit 44 # Ws # map Lit (str ''session'') @
           Ws # Lit 125 # Ws # Lit 61 # Ws # map Lit (str ''data''))"
    by (rule lang_WsI [OF assms(1)]) (use c in \<open>simp add: lang_lits\<close>)
  have "str ''supabase,'' = str ''supabase'' @ [44]" by (simp add: str_def)
  with 1 show ?thesis by (simp add: two_name_def destructure_spec_re_def)
qed

lemma occurs_destructure_spec:
  assumes "occurs destructure_re s"
  shows "occurs destructure_spec_re s"
proof -
  from assms obtain a b r where ab: "s = a @ b" "match_here destructure_re b = Some r"
    unfolding occurs_iff by blast
  from match_here_sound [OF ab(2)] obtain m where m: "m \<in> lang destructure_re" "b = m @ r"
    by blast
  from lang_two_name [OF m(1)] two_name_spec_lang have "m \<in> lang destructure_spec_re" by blast
  from match_here_complete [OF this, of r] m(2) ab(1) show ?thesis unfolding occurs_iff by blast
qed

lemma narrow_binding_no_two_name:
  "\<not> occurs destructure_spec_re content \<Longrightarrow> narrow_binding content = content"
  unfolding narrow_binding_def using occurs_destructure_spec re_sub_no_match by blast

section \<open>Step 2: narrowing the binding\<close>

text \<open>
  C7: on a text in which the pattern of line 18 matches at no position, step 2 is
  the identity: the text comes back as it was, whatever else it holds
  (single-name destructures, other bindings).  A text without a two-name
  destructure in the wider sense of \<open>destructure_spec_re\<close> is such a text (lemma
  \<open>narrow_binding_no_two_name\<close>).
\<close>

theorem narrow_binding_no_match:
  "\<not> occurs destructure_re content \<Longrightarrow> narrow_binding content = content"
  unfolding narrow_binding_def by (rule re_sub_no_match)

theorem narrow_binding_no_match_witness:
  "\<not> occurs destructure_re (str ''const { session } = data; let { supabase, x } = data'') \<and>
   narrow_binding (str ''const { session } = data; let { supabase, x } = data'') =
     str ''const { session } = data; let { supabase, x } = data''"
proof -
  have h: "\<not> occurs destructure_re (str ''const { session } = data; let { supabase, x } = data'')"
    by (simp add: str_def destructure_re_def is_space_def)
  show ?thesis using h narrow_binding_no_match [OF h] by simp
qed



text \<open>
  C1, as stated: every text holding the two-name destructure, with arbitrary
  whitespace between the tokens, comes out with \<open>{ session } = data\<close> and without
  the two-name form.  The pattern of line 18 has no \<open>\s*\<close> between \<open>supabase\<close> and the
  comma, so a destructure written \<open>{ supabase , session } = data\<close> is left as it is.
\<close>

theorem narrow_binding_spaced_comma:
  "occurs destructure_spec_re (str ''const { supabase , session } = data;'') \<and>
   narrow_binding (str ''const { supabase , session } = data;'') =
     str ''const { supabase , session } = data;'' \<and>
   \<not> contains session_only (narrow_binding (str ''const { supabase , session } = data;''))"
  by (simp add: texts destructure_spec_re_def narrow_binding_def re_sub.simps)

text \<open>
  C1, amended: every text in which the pattern of line 18 matches (whitespace is
  free after the opening brace, after the comma, around the closing brace and
  around the equals sign, and \<open>supabase\<close> is followed at once by its comma) comes
  out holding \<open>{ session } = data\<close> and with no match of that pattern left.
\<close>

theorem narrow_binding_replaces_all:
  assumes "occurs destructure_re content"
  shows "contains session_only (narrow_binding content) \<and>
         \<not> occurs destructure_re (narrow_binding content)"
proof
  from re_sub_occurs [OF destructure_ne assms] obtain a m b where
    "narrow_binding content = a @ session_only @ b" unfolding narrow_binding_def by blast
  then show "contains session_only (narrow_binding content)" unfolding contains_iff by blast
  show "\<not> occurs destructure_re (narrow_binding content)" by (rule narrow_binding_clean)
qed

theorem narrow_binding_replaces_all_witness:
  "occurs destructure_re (str ''const {supabase,session}=data;'') \<and>
   contains session_only (narrow_binding (str ''const {supabase,session}=data;'')) \<and>
   \<not> occurs destructure_re (narrow_binding (str ''const {supabase,session}=data;''))"
proof -
  have h: "occurs destructure_re (str ''const {supabase,session}=data;'')"
    by (simp add: texts)
  show ?thesis using h narrow_binding_replaces_all [OF h] by simp
qed

section \<open>Step 3: adding the import\<close>

text \<open>
  C4: a text that already holds one of the two markers, \<open>import { supabase }\<close> or
  \<open>$lib/supabase\<close>, is left unchanged by step 3, also when the anchor line is
  there.
\<close>

theorem add_import_marker_present:
  "contains marker_import content \<or> contains marker_module content \<Longrightarrow>
   add_import content = content"
  by (auto simp: add_import_def)

theorem add_import_marker_present_witness:
  "(contains marker_import
      (str ''import type { PageData } from './$types'; import x from '$lib/supabase';'') \<or>
    contains marker_module
      (str ''import type { PageData } from './$types'; import x from '$lib/supabase';'')) \<and>
   occurs anchor_re
      (str ''import type { PageData } from './$types'; import x from '$lib/supabase';'') \<and>
   add_import (str ''import type { PageData } from './$types'; import x from '$lib/supabase';'') =
     str ''import type { PageData } from './$types'; import x from '$lib/supabase';''"
proof -
  have h: "contains marker_import
      (str ''import type { PageData } from './$types'; import x from '$lib/supabase';'') \<or>
    contains marker_module
      (str ''import type { PageData } from './$types'; import x from '$lib/supabase';'')"
    by (simp add: str_def marker_module_def)
  have a: "occurs anchor_re
      (str ''import type { PageData } from './$types'; import x from '$lib/supabase';'')"
    by (simp add: str_def anchor_re_def)
  show ?thesis using h a add_import_marker_present [OF h] by simp
qed

text \<open>
  C2, as stated: a text without the markers and with the anchor line gets exactly
  one new import line.  \<open>re.sub\<close> is called without a count and replaces every match:
  a text with the anchor line twice gets the import line twice.
\<close>

theorem add_import_twice:
  "\<not> contains marker_import (anchor_line @ 10 # anchor_line) \<and>
   \<not> contains marker_module (anchor_line @ 10 # anchor_line) \<and>
   contains anchor_line (anchor_line @ 10 # anchor_line) \<and>
   add_import (anchor_line @ 10 # anchor_line) =
     anchor_line @ import_line @ 10 # anchor_line @ import_line \<and>
   count_of import_line (add_import (anchor_line @ 10 # anchor_line)) = 2"
  by (simp add: texts add_import_def re_sub.simps)

text \<open>
  C2, amended: a text without the markers in which the anchor line stands once,
  with no match of the pattern of line 24 starting before it or found after it,
  comes out with exactly one new import line, placed right after the anchor
  line; everything else is unchanged.
\<close>

theorem add_import_once:
  assumes "\<not> contains marker_import (a @ anchor_line @ b)"
    and "\<not> contains marker_module (a @ anchor_line @ b)"
    and "\<not> starts_in anchor_re a (anchor_line @ b)"
    and "\<not> occurs anchor_re b"
  shows "add_import (a @ anchor_line @ b) = a @ anchor_line @ import_line @ b"
proof -
  have m: "anchor_line \<in> lang anchor_re" unfolding anchor_line_def anchor_lang
    by (rule exI [of _ 46]) simp
  from re_sub_first [OF anchor_ne anchor_det m assms(3)] re_sub_no_match [OF assms(4)]
  have "re_sub anchor_re (\<lambda>m. m @ import_line) (a @ anchor_line @ b) =
      a @ (anchor_line @ import_line) @ b" by simp
  with assms(1,2) show ?thesis by (simp add: add_import_def)
qed

theorem add_import_once_witness:
  "\<not> contains marker_import (str ''<script>'' @ anchor_line @ str ''</script>'') \<and>
   \<not> contains marker_module (str ''<script>'' @ anchor_line @ str ''</script>'') \<and>
   \<not> starts_in anchor_re (str ''<script>'') (anchor_line @ str ''</script>'') \<and>
   \<not> occurs anchor_re (str ''</script>'') \<and>
   add_import (str ''<script>'' @ anchor_line @ str ''</script>'') =
     str ''<script>'' @ anchor_line @ import_line @ str ''</script>''"
proof -
  have 1: "\<not> contains marker_import (str ''<script>'' @ anchor_line @ str ''</script>'')"
    by (simp add: texts)
  have 2: "\<not> contains marker_module (str ''<script>'' @ anchor_line @ str ''</script>'')"
    by (simp add: texts)
  have 3: "\<not> starts_in anchor_re (str ''<script>'') (anchor_line @ str ''</script>'')"
    by (simp add: texts)
  have 4: "\<not> occurs anchor_re (str ''</script>'')"
    by (simp add: texts)
  show ?thesis using 1 2 3 4 add_import_once [OF 1 2 3 4] by simp
qed

text \<open>
  C5: a text without the markers and without the anchor line is to be left
  unchanged.  The dot of \<open>'.\/\$types'\<close> in line 24 is not escaped, unlike the slash and
  the dollar sign next to it, so the text below, which imports from \<open>'x/$types'\<close> and
  does not hold the anchor line, gets the import line all the same.  (A text in
  which the pattern itself matches nowhere is left unchanged: lemma
  \<open>add_import_no_anchor\<close>.)
\<close>

theorem add_import_foreign_specifier:
  "\<not> contains marker_import (str ''import type { PageData } from 'x/$types'; export let data;'') \<and>
   \<not> contains marker_module (str ''import type { PageData } from 'x/$types'; export let data;'') \<and>
   \<not> contains anchor_line (str ''import type { PageData } from 'x/$types'; export let data;'') \<and>
   add_import (str ''import type { PageData } from 'x/$types'; export let data;'') =
     str ''import type { PageData } from 'x/$types';'' @ import_line @ str '' export let data;''"
  by (simp add: texts add_import_def re_sub.simps)



section \<open>Steps 2 and 3 together\<close>

text \<open>
  C6: the two steps applied to their own result change nothing more: step 2
  leaves no match of its pattern, step 3 brings none in, and once step 3 has
  inserted the import line the marker \<open>import { supabase }\<close> is there.
\<close>

theorem fix_content_idempotent: "fix_content (fix_content content) = fix_content content"
proof -
  let ?t = "narrow_binding content"
  have clean: "\<not> occurs destructure_re ?t" by (rule narrow_binding_clean)
  then have idem: "narrow_binding ?t = ?t" unfolding narrow_binding_def by (rule re_sub_no_match)
  show ?thesis
  proof (cases "add_import ?t = ?t")
    case True
    then show ?thesis by (simp add: fix_content_def idem)
  next
    case False
    let ?u = "re_sub anchor_re (\<lambda>m. m @ import_line) ?t"
    from False have u: "add_import ?t = ?u" by (auto simp: add_import_def)
    from False have "occurs anchor_re ?t" using add_import_no_anchor by blast
    then have mark: "contains marker_import ?u" by (rule import_adds_marker)
    from clean have "\<not> occurs destructure_re ?u" by (rule import_keeps_clean)
    then have "narrow_binding ?u = ?u" unfolding narrow_binding_def by (rule re_sub_no_match)
    moreover from mark have "add_import ?u = ?u" by (simp add: add_import_def)
    ultimately show ?thesis by (simp add: fix_content_def u)
  qed
qed

theorem fix_content_idempotent_witness:
  "fix_content (fix_content (anchor_line @ 10 # str ''const { supabase, session } = data;'')) =
   fix_content (anchor_line @ 10 # str ''const { supabase, session } = data;'')"
  by (rule fix_content_idempotent)

section \<open>The batch\<close>







text \<open>
  C8: when reading a file raises, nothing is written: whatever \<open>save\<close> would do, the
  iteration for that file leaves the file system as it was and goes straight to
  the handler, which prints the error line of that exception (or raises, when
  printing it fails).
\<close>

theorem fix_file_failed_read:
  "load filepath w = Inl e \<Longrightarrow>
   fst (fst (fix_file load save console filepath (w, out))) = w \<and>
   fix_file load save console filepath (w, out) =
     (case py_print console (error_msg filepath e) out of
        Inl e' \<Rightarrow> ((w, out), Some e')
      | Inr out' \<Rightarrow> ((w, out'), None))"
  by (simp add: fix_file_def try_body_def split: sum.splits)

theorem fix_file_failed_read_witness:
  "read_file (files_to_fix ! 1) [files_to_fix ! 0 \<mapsto> str ''<p>search</p>''] =
     Inl (Exception (str ''[Errno 2] No such file or directory: '' @ [39] @ files_to_fix ! 1 @ [39])) \<and>
   fix_file read_file write_file terminal (files_to_fix ! 1)
       ([files_to_fix ! 0 \<mapsto> str ''<p>search</p>''], []) =
     (([files_to_fix ! 0 \<mapsto> str ''<p>search</p>''],
       [error_msg (files_to_fix ! 1)
          (Exception (str ''[Errno 2] No such file or directory: '' @ [39] @ files_to_fix ! 1 @ [39]))]),
      None)"
proof -
  have h: "read_file (files_to_fix ! 1) [files_to_fix ! 0 \<mapsto> str ''<p>search</p>''] =
     Inl (Exception (str ''[Errno 2] No such file or directory: '' @ [39] @ files_to_fix ! 1 @ [39]))"
    by (simp add: read_file_def files_to_fix_def str_def)
  show ?thesis
    using h fix_file_failed_read [of read_file "files_to_fix ! 1"
        "[files_to_fix ! 0 \<mapsto> str ''<p>search</p>'']"
        "Exception (str ''[Errno 2] No such file or directory: '' @ [39] @ files_to_fix ! 1 @ [39])"
        write_file terminal "[]"]
    by (simp add: py_print_def terminal_def)
qed

end
